theory Spec2Isabelle
  imports Complex_Main "HOL-Library.Word" "HOL-Library.Log_Nat"
begin

section \<open>Go's float64: IEEE 754 binary64 with round to nearest, ties to even\<close>

text \<open>
  A float64 is NaN, an infinity, negative zero, or a finite value, which is identified with
  the rational number it denotes (\<open>Fin 0\<close> is positive zero). The arithmetic of the
  language computes the exact rational result and rounds it with \<open>rnd\<close>.
\<close>

datatype float64 = NaN | PInf | NInf | NZero | Fin rat

definition pow2 :: "int \<Rightarrow> rat" where
  "pow2 e = 2 powi e"

definition pow10 :: "int \<Rightarrow> rat" where
  "pow10 e = 10 powi e"

text \<open>The number of digits of a positive integer in base \<open>b\<close>.\<close>

function digit_count :: "int \<Rightarrow> int \<Rightarrow> nat" where
  "digit_count b x = (if 0 < x \<and> 1 < b then Suc (digit_count b (x div b)) else 0)"
  by pat_completeness auto
termination
  by (relation "measure (\<lambda>(b, x). nat x)") (auto simp add: int_div_less_self)

declare digit_count.simps [simp del]

text \<open>\<open>ilog b a\<close> is the exponent of a positive rational in base \<open>b\<close>: the \<open>k\<close>
  with \<open>b^k \<le> a < b^(k+1)\<close>, computed from the numbers of digits of numerator and
  denominator.\<close>

definition ilog :: "nat \<Rightarrow> rat \<Rightarrow> int" where
  "ilog b a = (case quotient_of a of (p, d) \<Rightarrow>
     (let k = int (digit_count (int b) p) - int (digit_count (int b) d)
      in if of_nat b powi k \<le> a then k else k - 1))"

definition round_even :: "rat \<Rightarrow> int" where
  "round_even s = (let f = \<lfloor>s\<rfloor>; r = s - of_int f in
     if r < 1 / 2 then f else if 1 / 2 < r then f + 1 else if even f then f else f + 1)"

text \<open>Rounding of an exact result to binary64: 53 bits of precision, the smallest
  exponent of the last place is \<open>-1074\<close> (subnormal numbers), and a rounded magnitude
  of \<open>2^1024\<close> or more overflows to an infinity.\<close>

definition rnd :: "rat \<Rightarrow> float64" where
  "rnd q = (if q = 0 then Fin 0 else
     (let a = \<bar>q\<bar>;
          e = max (ilog 2 a - 52) (- 1074);
          r = of_int (round_even (a / pow2 e)) * pow2 e
      in if pow2 1024 \<le> r then (if q < 0 then NInf else PInf)
         else if r = 0 then (if q < 0 then NZero else Fin 0)
         else Fin (if q < 0 then - r else r)))"

definition is_inf :: "float64 \<Rightarrow> bool" where
  "is_inf x = (x = PInf \<or> x = NInf)"

definition is_zero :: "float64 \<Rightarrow> bool" where
  "is_zero x = (x = NZero \<or> x = Fin 0)"

definition sign_neg :: "float64 \<Rightarrow> bool" where
  "sign_neg x = (case x of NaN \<Rightarrow> False | PInf \<Rightarrow> False | NInf \<Rightarrow> True
     | NZero \<Rightarrow> True | Fin q \<Rightarrow> q < 0)"

definition val :: "float64 \<Rightarrow> rat" where
  "val x = (case x of Fin q \<Rightarrow> q | _ \<Rightarrow> 0)"

definition fneg :: "float64 \<Rightarrow> float64" where
  "fneg x = (case x of NaN \<Rightarrow> NaN | PInf \<Rightarrow> NInf | NInf \<Rightarrow> PInf | NZero \<Rightarrow> Fin 0
     | Fin q \<Rightarrow> if q = 0 then NZero else Fin (- q))"

definition signed_inf :: "bool \<Rightarrow> float64" where
  "signed_inf neg = (if neg then NInf else PInf)"

definition signed_zero :: "bool \<Rightarrow> float64" where
  "signed_zero neg = (if neg then NZero else Fin 0)"

definition fadd :: "float64 \<Rightarrow> float64 \<Rightarrow> float64" where
  "fadd x y =
     (if x = NaN \<or> y = NaN then NaN
      else if is_inf x then (if is_inf y \<and> x \<noteq> y then NaN else x)
      else if is_inf y then y
      else if x = NZero \<and> y = NZero then NZero
      else rnd (val x + val y))"

definition fsub :: "float64 \<Rightarrow> float64 \<Rightarrow> float64" where
  "fsub x y = fadd x (fneg y)"

definition fmul :: "float64 \<Rightarrow> float64 \<Rightarrow> float64" where
  "fmul x y =
     (if x = NaN \<or> y = NaN then NaN
      else if is_inf x \<or> is_inf y then
        (if is_zero x \<or> is_zero y then NaN else signed_inf (sign_neg x \<noteq> sign_neg y))
      else if is_zero x \<or> is_zero y then signed_zero (sign_neg x \<noteq> sign_neg y)
      else rnd (val x * val y))"

definition fdiv :: "float64 \<Rightarrow> float64 \<Rightarrow> float64" where
  "fdiv x y =
     (if x = NaN \<or> y = NaN then NaN
      else if is_inf x then (if is_inf y then NaN else signed_inf (sign_neg x \<noteq> sign_neg y))
      else if is_inf y then signed_zero (sign_neg x \<noteq> sign_neg y)
      else if is_zero y then
        (if is_zero x then NaN else signed_inf (sign_neg x \<noteq> sign_neg y))
      else if is_zero x then signed_zero (sign_neg x \<noteq> sign_neg y)
      else rnd (val x / val y))"

text \<open>The comparison \<open>x < y\<close>: false when either side is NaN, and the two zeros are equal.\<close>

definition flt :: "float64 \<Rightarrow> float64 \<Rightarrow> bool" where
  "flt x y =
     (if x = NaN \<or> y = NaN then False
      else if x = PInf \<or> y = NInf then False
      else if x = NInf \<or> y = PInf then True
      else val x < val y)"

text \<open>\<open>math.IsNaN\<close> and \<open>math.IsInf(f, sign)\<close> of the standard library.\<close>

definition IsNaN :: "float64 \<Rightarrow> bool" where
  "IsNaN f = (f = NaN)"

definition IsInf :: "float64 \<Rightarrow> int \<Rightarrow> bool" where
  "IsInf f sign = (0 \<le> sign \<and> f = PInf \<or> sign \<le> 0 \<and> f = NInf)"

section \<open>Conversions between int64 and float64\<close>

type_synonym int64 = "64 word"

text \<open>\<open>float64(a)\<close> of an int64 rounds to the nearest float64.\<close>

definition float64_of_int64 :: "int64 \<Rightarrow> float64" where
  "float64_of_int64 a = rnd (of_int (sint a))"

definition trunc_rat :: "rat \<Rightarrow> int" where
  "trunc_rat q = (if q < 0 then - \<lfloor>- q\<rfloor> else \<lfloor>q\<rfloor>)"

text \<open>
  \<open>int64(f)\<close> discards the fraction (truncation toward zero). When the truncated value
  does not fit in an int64, or \<open>f\<close> is NaN or an infinity, the conversion still succeeds
  and the language leaves the result to the implementation: that result is the parameter
  \<open>oor\<close> of the model.
\<close>

definition int64_of_float64 :: "(float64 \<Rightarrow> int64) \<Rightarrow> float64 \<Rightarrow> int64" where
  "int64_of_float64 oor f = (case f of
       Fin q \<Rightarrow> (let t = trunc_rat q in
                  if - (2 ^ 63) \<le> t \<and> t < 2 ^ 63 then word_of_int t else oor f)
     | NZero \<Rightarrow> 0
     | _ \<Rightarrow> oor f)"

text \<open>On amd64 the conversion instruction gives the smallest int64 whenever the
  value is out of range.\<close>

definition oor_amd64 :: "float64 \<Rightarrow> int64" where
  "oor_amd64 f = word_of_int (- (2 ^ 63))"

section \<open>amount.go\<close>

type_synonym Amount = int64

datatype error = InvalidAmount

text \<open>Modelled from the spec: the constant \<open>HaoPerBitcoin\<close> is declared outside
  amount.go; the spec gives the number of smallest units in one coin as \<open>10^8\<close>.\<close>

definition HaoPerBitcoin :: float64 where
  "HaoPerBitcoin = Fin 100000000"

definition round_amt :: "(float64 \<Rightarrow> int64) \<Rightarrow> float64 \<Rightarrow> Amount" where
  "round_amt oor f =
     (if flt f (Fin 0) then int64_of_float64 oor (fsub f (Fin (1 / 2)))
      else int64_of_float64 oor (fadd f (Fin (1 / 2))))"

definition NewAmount :: "(float64 \<Rightarrow> int64) \<Rightarrow> float64 \<Rightarrow> 64 word \<Rightarrow> Amount \<times> error option" where
  "NewAmount oor f tokentype =
     (if IsNaN f \<or> IsInf f 1 \<or> IsInf f (- 1) then (0, Some InvalidAmount)
      else if tokentype = 0 then (round_amt oor (fmul f HaoPerBitcoin), None)
      else (round_amt oor f, None))"

text \<open>\<open>AmountUnit\<close> is a Go \<open>int\<close>, taken here at its width on 64-bit platforms.\<close>

type_synonym AmountUnit = "64 word"

definition AmountMegaOMC :: AmountUnit where "AmountMegaOMC = 6"
definition AmountKiloOMC :: AmountUnit where "AmountKiloOMC = 3"
definition AmountOMC :: AmountUnit where "AmountOMC = 0"
definition AmountMilliOMC :: AmountUnit where "AmountMilliOMC = - 3"
definition AmountMicroOMC :: AmountUnit where "AmountMicroOMC = - 6"
definition AmountHao :: AmountUnit where "AmountHao = - 8"

text \<open>Decimal digits, as \<open>strconv.FormatInt(i, 10)\<close> writes them.\<close>

definition digit10 :: "int \<Rightarrow> char" where
  "digit10 d = ''0123456789'' ! nat d"

function digits10 :: "int \<Rightarrow> string" where
  "digits10 n = (if n < 10 then [digit10 n] else digits10 (n div 10) @ [digit10 (n mod 10)])"
  by pat_completeness auto
termination
  by (relation "measure nat") auto

declare digits10.simps [simp del]

definition FormatInt10 :: "int \<Rightarrow> string" where
  "FormatInt10 i = (if i < 0 then CHR ''-'' # digits10 (- i) else digits10 i)"

text \<open>The label of a unit. The label of the micro unit starts with the two bytes of the
  UTF-8 encoding of the Greek letter mu.\<close>

definition AmountUnit_String :: "AmountUnit \<Rightarrow> string" where
  "AmountUnit_String u =
     (if u = AmountMegaOMC then ''MOMC''
      else if u = AmountKiloOMC then ''kOMC''
      else if u = AmountOMC then ''OMC''
      else if u = AmountMilliOMC then ''mOMC''
      else if u = AmountMicroOMC then [CHR 0xCE, CHR 0xBC] @ ''OMC''
      else if u = AmountHao then ''Hao''
      else ''1e'' @ FormatInt10 (sint u) @ '' OMC'')"

text \<open>
  \<open>math.Pow10(n)\<close> of the standard library: the product (for \<open>n \<ge> 0\<close>) or quotient
  (for \<open>n \<le> 0\<close>) of two table entries, the float64 literals \<open>1e(32*i)\<close> or
  \<open>1e-(32*i)\<close> and \<open>1e(j)\<close> with \<open>j < 32\<close>; +infinity above \<open>308\<close> and zero below
  \<open>-323\<close>.
\<close>

definition Pow10 :: "int \<Rightarrow> float64" where
  "Pow10 n =
     (if 0 \<le> n \<and> n \<le> 308 then
        fmul (rnd (pow10 (32 * (n div 32)))) (rnd (pow10 (n mod 32)))
      else if - 323 \<le> n \<and> n \<le> 0 then
        fdiv (rnd (pow10 (- (32 * ((- n) div 32))))) (rnd (pow10 ((- n) mod 32)))
      else if 0 < n then PInf
      else Fin 0)"

definition ToUnit :: "Amount \<Rightarrow> AmountUnit \<Rightarrow> float64" where
  "ToUnit a u = fdiv (float64_of_int64 a) (Pow10 (sint (u + 8)))"

definition ToOMC :: "Amount \<Rightarrow> float64" where
  "ToOMC a = ToUnit a AmountOMC"

definition MulF64 :: "(float64 \<Rightarrow> int64) \<Rightarrow> Amount \<Rightarrow> float64 \<Rightarrow> Amount" where
  "MulF64 oor a f = round_amt oor (fmul (float64_of_int64 a) f)"

text \<open>
  \<open>strconv.FormatFloat(x, 'f', prec, 64)\<close> of the standard library. NaN and the infinities
  are written as \<open>NaN\<close>, \<open>+Inf\<close> and \<open>-Inf\<close>. Otherwise a minus sign is written when
  the sign bit is set, and then the magnitude: with a precision \<open>prec \<ge> 0\<close>, the exact
  value rounded (ties to even) to \<open>prec\<close> digits after the decimal point, the point being
  omitted when \<open>prec = 0\<close>; with a negative precision, the decimal number with the fewest
  digits that rounds to \<open>x\<close> (the closest to \<open>x\<close> among them), with as many digits after
  the point as this number has.
\<close>

fun frac10 :: "nat \<Rightarrow> int \<Rightarrow> string" where
  "frac10 0 n = []"
| "frac10 (Suc p) n = frac10 p (n div 10) @ [digit10 (n mod 10)]"

definition fixed_digits :: "int \<Rightarrow> nat \<Rightarrow> string" where
  "fixed_digits n p =
     digits10 (n div 10 ^ p) @ (if 0 < p then CHR ''.'' # frac10 p (n mod 10 ^ p) else [])"

definition dec_candidate :: "rat \<Rightarrow> int \<Rightarrow> nat \<Rightarrow> (int \<times> int) option" where
  "dec_candidate q k nd =
     (let e10 = k - int nd + 1;
          s = q / pow10 e10;
          lo = \<lfloor>s\<rfloor>;
          hi = lo + 1;
          oklo = (rnd (of_int lo * pow10 e10) = Fin q);
          okhi = (rnd (of_int hi * pow10 e10) = Fin q);
          up = (if oklo \<and> okhi
                then of_int hi - s < s - of_int lo \<or> of_int hi - s = s - of_int lo \<and> odd lo
                else okhi)
      in if up then (if hi = 10 ^ nd then Some (1, k + 1) else Some (hi, e10))
         else if oklo then Some (lo, e10)
         else None)"

fun shortest_dec :: "rat \<Rightarrow> int \<Rightarrow> nat \<Rightarrow> nat \<Rightarrow> int \<times> int" where
  "shortest_dec q k nd 0 = (round_even (q / pow10 (k - int nd + 1)), k - int nd + 1)"
| "shortest_dec q k nd (Suc fuel) =
     (case dec_candidate q k nd of
        Some r \<Rightarrow> r
      | None \<Rightarrow> shortest_dec q k (Suc nd) fuel)"

definition shortest_fixed :: "rat \<Rightarrow> string" where
  "shortest_fixed a =
     (if a = 0 then ''0''
      else (case shortest_dec a (ilog 10 a) 1 16 of
              (c, e10) \<Rightarrow> if 0 \<le> e10 then digits10 (c * 10 ^ nat e10)
                           else fixed_digits c (nat (- e10))))"

definition FormatFloat_f :: "float64 \<Rightarrow> int \<Rightarrow> string" where
  "FormatFloat_f x prec =
     (if x = NaN then ''NaN''
      else if x = PInf then ''+Inf''
      else if x = NInf then ''-Inf''
      else (if sign_neg x then ''-'' else []) @
        (if prec < 0 then shortest_fixed \<bar>val x\<bar>
         else fixed_digits (round_even (\<bar>val x\<bar> * 10 ^ nat prec)) (nat prec)))"

definition Format :: "Amount \<Rightarrow> AmountUnit \<Rightarrow> string" where
  "Format a u =
     (let units = '' '' @ AmountUnit_String u
      in FormatFloat_f (ToUnit a u) (sint (- (u + 8))) @ units)"

definition Amount_String :: "Amount \<Rightarrow> string" where
  "Amount_String a = Format a AmountOMC"

text \<open>The number of characters after the decimal point in the number that starts a
  formatted amount (the part before the first space); \<open>0\<close> when it has no point.\<close>

definition frac_count :: "string \<Rightarrow> nat" where
  "frac_count s =
     length (drop 1 (dropWhile (\<lambda>c. c \<noteq> CHR ''.'') (takeWhile (\<lambda>c. c \<noteq> CHR '' '') s)))"

definition is_digit :: "char \<Rightarrow> bool" where
  "is_digit c = (c \<in> set ''0123456789'')"

section \<open>Properties of the rounding\<close>

lemma pow2_pos: "0 < pow2 e"
  by (simp add: pow2_def)

lemma pow2_add: "pow2 (a + b) = pow2 a * pow2 b"
  by (simp add: pow2_def power_int_add)

lemma pow2_diff: "pow2 (a - b) = pow2 a / pow2 b"
  by (simp add: pow2_def power_int_diff)

lemma pow2_mono: "a \<le> b \<Longrightarrow> pow2 a \<le> pow2 b"
  by (simp add: pow2_def power_int_increasing)

lemma pow2_strict_mono: "a < b \<Longrightarrow> pow2 a < pow2 b"
  by (simp add: pow2_def power_int_strict_increasing)

lemma pow2_nat: "pow2 (int n) = 2 ^ n"
  by (simp add: pow2_def)

lemma pow2_less_cancel: "pow2 a < pow2 b \<Longrightarrow> a < b"
  by (metis not_le pow2_mono)

lemma digit_count_floorlog:
  assumes b: "1 < b"
  shows "digit_count (int b) x = floorlog b (nat x)"
proof (induction "nat x" arbitrary: x rule: less_induct)
  case less
  show ?case
  proof (cases "0 < x")
    case True
    have "x div int b < x" using True b by (simp add: int_div_less_self)
    then have "nat (x div int b) < nat x" using True by simp
    then have "digit_count (int b) (x div int b) = floorlog b (nat (x div int b))"
      by (rule less)
    moreover have "nat (x div int b) = nat x div b"
      using True by (simp add: nat_div_distrib)
    ultimately show ?thesis
      using True b by (subst digit_count.simps, subst compute_floorlog) simp
  next
    case False
    then show ?thesis by (subst digit_count.simps, subst compute_floorlog) simp
  qed
qed

lemma ilog_bounds:
  assumes b: "1 < b" and "0 < a"
  shows "of_nat b powi (ilog b a) \<le> a \<and> a < of_nat b powi (ilog b a + 1)"
proof -
  let ?B = "of_nat b :: rat"
  have B: "0 < ?B" using b by simp
  obtain p d where pd: "quotient_of a = (p, d)" by (cases "quotient_of a")
  then have d: "0 < d" and a: "a = of_int p / of_int d"
    using quotient_of_denom_pos quotient_of_div by blast+
  with assms have p: "0 < p"
    by (simp add: zero_less_divide_iff)
  define lp where "lp = floorlog b (nat p)"
  define ld where "ld = floorlog b (nat d)"
  define k where "k = int lp - int ld"
  have np: "0 < nat p" and nd: "0 < nat d" using p d by simp_all
  from floorlog_bounds[OF np b] have "b ^ (lp - 1) \<le> nat p" "nat p < b ^ lp"
    by (simp_all add: lp_def)
  then have "?B ^ (lp - 1) \<le> of_nat (nat p)" "of_nat (nat p) < ?B ^ lp"
    by (metis of_nat_le_iff of_nat_power, metis of_nat_less_iff of_nat_power)
  then have p1: "?B ^ (lp - 1) \<le> of_int p" and p2: "of_int p < ?B ^ lp"
    using p by simp_all
  from floorlog_bounds[OF nd b] have "b ^ (ld - 1) \<le> nat d" "nat d < b ^ ld"
    by (simp_all add: ld_def)
  then have "?B ^ (ld - 1) \<le> of_nat (nat d)" "of_nat (nat d) < ?B ^ ld"
    by (metis of_nat_le_iff of_nat_power, metis of_nat_less_iff of_nat_power)
  then have d1: "?B ^ (ld - 1) \<le> of_int d" and d2: "of_int d < ?B ^ ld"
    using d by simp_all
  have lp: "0 < lp" and ld: "0 < ld"
    using np nd b by (simp_all add: lp_def ld_def floorlog_def)
  have dq: "(0::rat) < of_int d" using d by simp
  have up: "a < ?B powi (k + 1)"
  proof -
    have "of_int p < ?B powi (int lp)" using p2 by simp
    also have "int lp = k + 1 + int (ld - 1)"
      using ld by (simp add: k_def of_nat_diff)
    also have "?B powi (k + 1 + int (ld - 1)) = ?B powi (k + 1) * ?B powi (int (ld - 1))"
      using B by (subst power_int_add) simp_all
    also have "\<dots> \<le> ?B powi (k + 1) * of_int d"
      using d1 B by (simp add: zero_less_power_int)
    finally show ?thesis using dq by (simp add: a pos_divide_less_eq)
  qed
  have lo: "?B powi (k - 1) < a"
  proof -
    have "?B powi (k - 1) * of_int d < ?B powi (k - 1) * ?B powi (int ld)"
      using d2 B by (simp add: zero_less_power_int)
    also have "\<dots> = ?B powi (k - 1 + int ld)"
      using B by (subst power_int_add) simp_all
    also have "k - 1 + int ld = int (lp - 1)"
      using lp by (simp add: k_def of_nat_diff)
    also have "?B powi (int (lp - 1)) \<le> of_int p" using p1 by simp
    finally show ?thesis using dq by (simp add: a pos_less_divide_eq)
  qed
  show ?thesis
  proof (cases "?B powi k \<le> a")
    case True
    then have "ilog b a = k"
      by (simp add: ilog_def pd k_def lp_def ld_def Let_def digit_count_floorlog[OF b])
    with True up show ?thesis by simp
  next
    case False
    then have "ilog b a = k - 1"
      by (simp add: ilog_def pd k_def lp_def ld_def Let_def digit_count_floorlog[OF b])
    with False lo show ?thesis by simp
  qed
qed

lemma powi_less_cancel:
  fixes B :: rat
  assumes "1 < B" "B powi a < B powi b"
  shows "a < b"
proof (rule ccontr)
  assume "\<not> a < b"
  then have "b \<le> a" by simp
  then have "B powi b \<le> B powi a" using assms(1) by (intro power_int_increasing) simp_all
  with assms(2) show False by simp
qed

lemma ilog_unique:
  assumes b: "1 < b" and lo: "of_nat b powi k \<le> a" and up: "a < of_nat b powi (k + 1)"
  shows "ilog b a = k"
proof -
  let ?B = "of_nat b :: rat"
  have B: "1 < ?B" using b by simp
  have a: "0 < a" using lo B zero_less_power_int[of ?B k] by linarith
  from ilog_bounds[OF b a]
  have l: "?B powi (ilog b a) \<le> a" and u: "a < ?B powi (ilog b a + 1)" by simp_all
  have "?B powi k < ?B powi (ilog b a + 1)" using lo u by linarith
  then have 1: "k < ilog b a + 1" using B by (rule powi_less_cancel[rotated])
  have "?B powi (ilog b a) < ?B powi (k + 1)" using up l by linarith
  then have 2: "ilog b a < k + 1" using B by (rule powi_less_cancel[rotated])
  from 1 2 show ?thesis by linarith
qed

lemma ilog2_bounds: "0 < a \<Longrightarrow> pow2 (ilog 2 a) \<le> a \<and> a < pow2 (ilog 2 a + 1)"
  using ilog_bounds[of 2 a] by (simp add: pow2_def)

lemma ilog2_unique: "pow2 k \<le> a \<Longrightarrow> a < pow2 (k + 1) \<Longrightarrow> ilog 2 a = k"
  using ilog_unique[of 2 k a] by (simp add: pow2_def)

lemma ilog10_unique: "pow10 k \<le> a \<Longrightarrow> a < pow10 (k + 1) \<Longrightarrow> ilog 10 a = k"
  using ilog_unique[of 10 k a] by (simp add: pow10_def)

lemma round_even_of_int: "round_even (of_int m) = m"
  by (simp add: round_even_def)

lemma rnd_eval:
  assumes "pow2 k \<le> \<bar>q\<bar>" "\<bar>q\<bar> < pow2 (k + 1)"
  shows "rnd q = (let e = max (k - 52) (- 1074);
                     r = of_int (round_even (\<bar>q\<bar> / pow2 e)) * pow2 e
      in if pow2 1024 \<le> r then (if q < 0 then NInf else PInf)
         else if r = 0 then (if q < 0 then NZero else Fin 0)
         else Fin (if q < 0 then - r else r))"
proof -
  have "q \<noteq> 0" using assms(1) pow2_pos[of k] by auto
  then show ?thesis
    by (simp add: rnd_def ilog2_unique[OF assms])
qed

lemma floor_rat_numeral_div:
  "\<lfloor>(numeral a :: rat) / numeral b\<rfloor> = numeral a div numeral b"
  by (metis floor_divide_of_int_eq of_int_numeral)

lemma floor_rat_neg_numeral_div:
  "\<lfloor>- ((numeral a :: rat) / numeral b)\<rfloor> = - numeral a div numeral b"
  by (metis divide_minus_left floor_divide_of_int_eq of_int_neg_numeral of_int_numeral)

lemmas rnd_simps = pow2_def round_even_def Let_def floor_rat_numeral_div floor_rat_neg_numeral_div

lemma rnd_exact:
  assumes q: "\<bar>q\<bar> = of_int m * pow2 e" and m: "m < 2 ^ 53" and e: "- 1074 \<le> e"
    and lim: "\<bar>q\<bar> < pow2 1024"
  shows "rnd q = Fin q"
proof (cases "q = 0")
  case True
  then show ?thesis by (simp add: rnd_def)
next
  case False
  then have a: "0 < \<bar>q\<bar>" by simp
  define k where "k = ilog 2 \<bar>q\<bar>"
  define e' where "e' = max (k - 52) (- 1074)"
  from ilog2_bounds[OF a] have k: "pow2 k \<le> \<bar>q\<bar>" by (simp add: k_def)
  have "(of_int m :: rat) < 2 ^ 53" using m by (metis of_int_less_numeral_power_cancel_iff)
  then have "of_int m * pow2 e < pow2 53 * pow2 e"
    using pow2_pos[of e] by (simp add: pow2_def)
  then have "pow2 k < pow2 (53 + e)" using k q by (simp add: pow2_add)
  then have "k < 53 + e" by (rule pow2_less_cancel)
  then have le: "e' \<le> e" using e by (simp add: e'_def)
  have "pow2 e = pow2 (e - e') * pow2 e'" by (simp flip: pow2_add)
  also have "pow2 (e - e') = of_int (2 ^ nat (e - e'))"
    using le by (simp add: pow2_def power_int_def)
  finally have pe: "pow2 e = of_int (2 ^ nat (e - e')) * pow2 e'" .
  have "\<bar>q\<bar> / pow2 e' = of_int (m * 2 ^ nat (e - e'))"
    using pow2_pos[of e'] by (simp add: q pe)
  then have "round_even (\<bar>q\<bar> / pow2 e') = m * 2 ^ nat (e - e')"
    by (simp only: round_even_of_int)
  then have "of_int (round_even (\<bar>q\<bar> / pow2 e')) * pow2 e'
      = of_int m * (of_int (2 ^ nat (e - e')) * pow2 e')"
    by simp
  also have "\<dots> = \<bar>q\<bar>" by (simp only: q pe)
  finally have r: "of_int (round_even (\<bar>q\<bar> / pow2 (max (ilog 2 \<bar>q\<bar> - 52) (- 1074))))
      * pow2 (max (ilog 2 \<bar>q\<bar> - 52) (- 1074)) = \<bar>q\<bar>"
    by (simp only: e'_def k_def)
  show ?thesis
    unfolding rnd_def Let_def r using False lim by auto
qed

lemma rnd_of_int:
  assumes "\<bar>n\<bar> \<le> 2 ^ 53"
  shows "rnd (of_int n) = Fin (of_int n)"
proof (cases "\<bar>n\<bar> = 2 ^ 53")
  case True
  have "\<bar>of_int n :: rat\<bar> = of_int (2 ^ 52) * pow2 1"
    using True by (simp add: pow2_def flip: of_int_abs)
  then show ?thesis
    by (rule rnd_exact) (simp_all add: True pow2_def flip: of_int_abs)
next
  case False
  with assms have lt: "\<bar>n\<bar> < 2 ^ 53" by simp
  have "\<bar>of_int n :: rat\<bar> = of_int \<bar>n\<bar> * pow2 0" by (simp add: pow2_def)
  moreover have "\<bar>of_int n :: rat\<bar> < pow2 1024"
  proof -
    have "\<bar>of_int n :: rat\<bar> < 2 ^ 53" using lt by (metis of_int_abs of_int_less_numeral_power_cancel_iff)
    also have "\<dots> \<le> pow2 1024" using pow2_mono[of 53 1024] by (simp add: pow2_def)
    finally show ?thesis .
  qed
  ultimately show ?thesis using lt by (intro rnd_exact[where m="\<bar>n\<bar>" and e=0]) simp_all
qed

lemma round_even_error: "\<bar>of_int (round_even s) - s\<bar> \<le> 1 / 2"
proof -
  define f where "f = \<lfloor>s\<rfloor>"
  have f: "of_int f \<le> s" "s < of_int f + 1" unfolding f_def by linarith+
  consider (lt) "s - of_int f < 1 / 2" | (gt) "1 / 2 < s - of_int f" | (eq) "s - of_int f = 1 / 2"
    by linarith
  then show ?thesis
  proof cases
    case lt
    then have "round_even s = f" by (simp add: round_even_def Let_def flip: f_def)
    with lt f show ?thesis by simp
  next
    case gt
    then have "round_even s = f + 1" by (simp add: round_even_def Let_def flip: f_def)
    with gt f show ?thesis by simp
  next
    case eq
    then have "round_even s = f \<or> round_even s = f + 1"
      by (simp add: round_even_def Let_def flip: f_def)
    with eq f show ?thesis by auto
  qed
qed

lemma rnd_normal:
  assumes lo: "pow2 (- 1022) \<le> \<bar>q\<bar>" and hi: "\<bar>q\<bar> \<le> pow2 1023"
  obtains r where "rnd q = Fin (if q < 0 then - r else r)" "0 < r"
    "\<bar>r - \<bar>q\<bar>\<bar> \<le> \<bar>q\<bar> / 2 ^ 53"
proof -
  define a where "a = \<bar>q\<bar>"
  have a: "0 < a" using lo pow2_pos[of "- 1022"] by (simp add: a_def)
  define k where "k = ilog 2 a"
  from ilog2_bounds[OF a] have k1: "pow2 k \<le> a" and k2: "a < pow2 (k + 1)"
    by (simp_all add: k_def)
  have "pow2 (- 1022) < pow2 (k + 1)" using lo k2 by (simp add: a_def)
  then have kl: "- 1022 \<le> k" using pow2_less_cancel by fastforce
  define e where "e = k - 52"
  have e: "max (k - 52) (- 1074) = e" using kl by (simp add: e_def)
  define s where "s = a / pow2 e"
  define m where "m = round_even s"
  define r where "r = of_int m * pow2 e"
  have pe: "0 < pow2 e" by (rule pow2_pos)
  have ke: "pow2 k = pow2 52 * pow2 e" by (simp add: e_def flip: pow2_add)
  have p52: "pow2 52 = 2 ^ 52" by (simp add: pow2_def)
  have s1: "pow2 52 \<le> s" using k1 pe by (simp add: s_def ke pos_le_divide_eq)
  have err: "\<bar>of_int m - s\<bar> \<le> 1 / 2" unfolding m_def by (rule round_even_error)
  have "r - a = (of_int m - s) * pow2 e" using pe by (simp add: r_def s_def field_simps)
  then have "\<bar>r - a\<bar> = \<bar>of_int m - s\<bar> * pow2 e" using pe by (simp add: abs_mult)
  also have "\<dots> \<le> 1 / 2 * pow2 e" using err pe by (intro mult_right_mono) simp_all
  also have "\<dots> = pow2 k / 2 ^ 53" by (simp add: ke p52)
  also have "\<dots> \<le> a / 2 ^ 53" using k1 by (simp add: divide_right_mono)
  finally have bound: "\<bar>r - a\<bar> \<le> a / 2 ^ 53" .
  have "1 \<le> s" using s1 by (simp add: p52)
  then have "(0 :: rat) < of_int m" using err by linarith
  then have rpos: "0 < r" using pe by (simp add: r_def)
  have "r \<le> a + a / 2 ^ 53" using bound by linarith
  also have "\<dots> \<le> pow2 1023 + pow2 1023 / 2 ^ 53" using hi by (simp add: a_def divide_right_mono add_mono)
  also have "\<dots> < pow2 1024" by (simp add: pow2_def)
  finally have nov: "\<not> pow2 1024 \<le> r" by simp
  have q0: "q \<noteq> 0" using a by (auto simp add: a_def)
  have "rnd q = (if pow2 1024 \<le> r then (if q < 0 then NInf else PInf)
         else if r = 0 then (if q < 0 then NZero else Fin 0)
         else Fin (if q < 0 then - r else r))"
    unfolding r_def m_def s_def using q0
    by (simp add: rnd_def Let_def e flip: a_def k_def)
  then have "rnd q = Fin (if q < 0 then - r else r)"
    using nov rpos by simp
  then show ?thesis using rpos bound that by (simp add: a_def)
qed


lemma pow2_le_1024: "2 ^ 63 \<le> pow2 1023"
proof -
  have "pow2 63 \<le> pow2 1023" by (rule pow2_mono) simp
  then show ?thesis by (simp add: pow2_def)
qed

lemma float64_of_int64_cases:
  obtains r where "float64_of_int64 a = Fin r" "r < 0 \<longleftrightarrow> sint a < 0" "r = 0 \<longleftrightarrow> a = 0"
proof (cases "a = 0")
  case True
  then have "float64_of_int64 a = Fin 0" by (simp add: float64_of_int64_def rnd_def)
  with True that show ?thesis by simp
next
  case False
  define q :: rat where "q = of_int (sint a)"
  have n0: "sint a \<noteq> 0" using False by (simp add: signed_eq_0_iff)
  then have "1 \<le> \<bar>sint a\<bar>" by simp
  then have "(1 :: rat) \<le> \<bar>q\<bar>" unfolding q_def by (metis of_int_1_le_iff of_int_abs)
  moreover have "pow2 (- 1022) \<le> 1" using pow2_mono[of "- 1022" 0] by (simp add: pow2_def)
  ultimately have lo: "pow2 (- 1022) \<le> \<bar>q\<bar>" by simp
  have "\<bar>sint a\<bar> \<le> 2 ^ 63" using sint_ge[of a] sint_lt[of a] by simp
  then have "\<bar>q\<bar> \<le> 2 ^ 63" unfolding q_def by (metis of_int_abs of_int_le_numeral_power_cancel_iff)
  then have hi: "\<bar>q\<bar> \<le> pow2 1023" using pow2_le_1024 by simp
  from rnd_normal[OF lo hi] obtain r where r: "rnd q = Fin (if q < 0 then - r else r)" "0 < r"
    by blast
  have "float64_of_int64 a = Fin (if q < 0 then - r else r)"
    using r(1) by (simp add: float64_of_int64_def q_def)
  moreover have "q < 0 \<longleftrightarrow> sint a < 0" by (simp only: q_def of_int_less_0_iff)
  ultimately show ?thesis using r(2) False that[of "if q < 0 then - r else r"] by auto
qed

lemma rnd_pow10_exact:
  assumes "n \<le> 22"
  shows "rnd (10 ^ n) = Fin (10 ^ n)"
proof (rule rnd_exact[where m="5 ^ n" and e="int n"])
  show "\<bar>10 ^ n :: rat\<bar> = of_int (5 ^ n) * pow2 (int n)"
    by (simp add: pow2_def flip: power_mult_distrib)
  have "(5 :: int) ^ n \<le> 5 ^ 22" using assms by (intro power_increasing) simp_all
  then show "(5 :: int) ^ n < 2 ^ 53" by simp
  show "- 1074 \<le> int n" by simp
  have "(10 :: rat) ^ n \<le> 10 ^ 22" using assms by (intro power_increasing) simp_all
  also have "\<dots> < 2 ^ 74" by simp
  also have "\<dots> \<le> pow2 1024" using pow2_mono[of 74 1024] by (simp add: pow2_def)
  finally show "\<bar>10 ^ n :: rat\<bar> < pow2 1024" by simp
qed

section \<open>Evaluation of the operations on finite values\<close>

lemma fmul_Fin: "p \<noteq> 0 \<Longrightarrow> q \<noteq> 0 \<Longrightarrow> fmul (Fin p) (Fin q) = rnd (p * q)"
  by (simp add: fmul_def is_inf_def is_zero_def val_def)

lemma round_amt_Fin:
  "round_amt oor (Fin q) = int64_of_float64 oor (rnd (if q < 0 then q - 1 / 2 else q + 1 / 2))"
  by (simp add: round_amt_def flt_def fsub_def fadd_def fneg_def is_inf_def val_def)

lemma int64_of_float64_Fin:
  "- (2 ^ 63) \<le> trunc_rat q \<Longrightarrow> trunc_rat q < 2 ^ 63 \<Longrightarrow>
   int64_of_float64 oor (Fin q) = word_of_int (trunc_rat q)"
  by (simp add: int64_of_float64_def)

lemma NewAmount_Fin:
  "NewAmount oor (Fin q) t =
     (if t = 0 then (round_amt oor (fmul (Fin q) HaoPerBitcoin), None)
      else (round_amt oor (Fin q), None))"
  by (simp add: NewAmount_def IsNaN_def IsInf_def)

lemmas trunc_simps = trunc_rat_def floor_rat_numeral_div floor_rat_neg_numeral_div

lemma rnd_neg3: "rnd (- 3) = Fin (- 3)"
  by (rule rnd_exact[where m=3 and e=0]) (simp_all add: pow2_def)

lemma rnd_pos3: "rnd 3 = Fin 3"
  by (rule rnd_exact[where m=3 and e=0]) (simp_all add: pow2_def)

lemma rnd_1: "rnd 1 = Fin 1"
  using rnd_pow10_exact[of 0] by simp

lemma rnd_2: "rnd 2 = Fin 2"
  by (rule rnd_exact[where m=2 and e=0]) (simp_all add: pow2_def)

lemma fdiv_Fin: "0 < q \<Longrightarrow> fdiv (Fin p) (Fin q) = rnd (p / q)"
  by (simp add: fdiv_def is_inf_def is_zero_def val_def sign_neg_def signed_zero_def rnd_def)

lemma Pow10_exact:
  assumes "0 \<le> n" "n \<le> 22"
  shows "Pow10 n = Fin (10 ^ nat n)"
proof -
  have d: "n div 32 = 0" "n mod 32 = n" using assms by simp_all
  have one: "rnd 1 = Fin 1" using rnd_pow10_exact[of 0] by simp
  have p0: "pow10 0 = 1" by (simp add: pow10_def)
  have p: "pow10 n = 10 ^ nat n" using assms by (simp add: pow10_def power_int_def)
  have "rnd (10 ^ nat n) = Fin (10 ^ nat n)" using assms by (intro rnd_pow10_exact) simp
  then show ?thesis
    using assms by (simp add: Pow10_def d one p p0 fmul_Fin)
qed


lemma digits10_small: "n < 10 \<Longrightarrow> digits10 n = [digit10 n]"
  by (simp add: digits10.simps)

section \<open>The rounding rule\<close>

text \<open>
  Claim C1. The rounding function used by construction and multiplication: for every
  float64 \<open>f\<close>, if \<open>f\<close> is negative the result is the integer truncation of
  \<open>f - 0.5\<close>, and otherwise it is the integer truncation of \<open>f + 0.5\<close>, the
  subtraction and the addition being those of float64.
\<close>

theorem round_amt_half_away:
  "(flt f (Fin 0) \<longrightarrow> round_amt oor f = int64_of_float64 oor (fsub f (Fin (1 / 2)))) \<and>
   (\<not> flt f (Fin 0) \<longrightarrow> round_amt oor f = int64_of_float64 oor (fadd f (Fin (1 / 2))))"
  by (simp add: round_amt_def)

theorem round_amt_half_away_witness:
  "flt (Fin (- 5 / 2)) (Fin 0) \<and> round_amt oor_amd64 (Fin (- 5 / 2)) = - 3 \<and>
   \<not> flt (Fin (5 / 2)) (Fin 0) \<and> round_amt oor_amd64 (Fin (5 / 2)) = 3"
  using round_amt_half_away[of "Fin (- 5 / 2)" oor_amd64] round_amt_half_away[of "Fin (5 / 2)" oor_amd64]
  by (simp add: flt_def val_def fsub_def fadd_def fneg_def is_inf_def rnd_neg3 rnd_pos3
      int64_of_float64_def trunc_simps)

text \<open>On the integers and half-integers below \<open>2^51\<close> in magnitude the two float64
  operations are exact, and the rule is rounding to the nearest integer with ties away
  from zero.\<close>

lemma round_amt_half_integers:
  assumes m: "\<bar>m\<bar> < 2 ^ 52"
  shows "round_amt oor (Fin (of_int m / 2)) =
     word_of_int (if m < 0 then - \<lfloor>(- of_int m + 1) / 2 :: rat\<rfloor> else \<lfloor>(of_int m + 1) / 2 :: rat\<rfloor>)"
proof -
  define q :: rat where "q = of_int m / 2"
  define h :: rat where "h = (if q < 0 then q - 1 / 2 else q + 1 / 2)"
  define k where "k = (if m < 0 then m - 1 else m + 1)"
  have qn: "q < 0 \<longleftrightarrow> m < 0" by (simp add: q_def)
  have hk: "h = of_int k / 2" by (simp add: h_def k_def qn) (simp add: q_def)
  have kb: "\<bar>k\<bar> < 2 ^ 53" using m by (auto simp add: k_def)
  have "(of_int \<bar>k\<bar> :: rat) < 2 ^ 53" using kb by (metis of_int_less_numeral_power_cancel_iff)
  then have hb: "\<bar>h\<bar> < 2 ^ 53" by (simp add: hk)
  have "\<bar>h\<bar> = of_int \<bar>k\<bar> * pow2 (- 1)" by (simp add: hk pow2_def)
  moreover have "\<bar>h\<bar> < pow2 1024"
  proof -
    note hb
    also have "(2 :: rat) ^ 53 \<le> pow2 1024" using pow2_mono[of 53 1024] by (simp add: pow2_def)
    finally show ?thesis .
  qed
  ultimately have r: "rnd h = Fin h" using kb by (intro rnd_exact[where m="\<bar>k\<bar>" and e="- 1"]) simp_all
  have eq: "- ((of_int m - 1) / 2 :: rat) = (1 - of_int m) / 2"
    by (simp add: minus_divide_left[symmetric] del: minus_divide_left) (simp add: minus_divide_left)
  have t: "trunc_rat h = (if m < 0 then - \<lfloor>(- of_int m + 1) / 2 :: rat\<rfloor> else \<lfloor>(of_int m + 1) / 2 :: rat\<rfloor>)"
    by (auto simp add: trunc_rat_def hk k_def zero_less_divide_iff divide_less_0_iff eq)
  have rng: "- (2 ^ 63) \<le> trunc_rat h \<and> trunc_rat h < 2 ^ 63"
  proof (cases "h < 0")
    case True
    then have "0 \<le> \<lfloor>- h\<rfloor>" "\<lfloor>- h\<rfloor> < 2 ^ 53"
      using hb by (simp_all add: floor_less_iff)
    moreover have "(2 :: int) ^ 53 < 2 ^ 63" by simp
    ultimately show ?thesis by (simp only: trunc_rat_def True if_True) linarith
  next
    case False
    then have "0 \<le> \<lfloor>h\<rfloor>" "\<lfloor>h\<rfloor> < 2 ^ 53"
      using hb by (simp_all add: floor_less_iff)
    moreover have "(2 :: int) ^ 53 < 2 ^ 63" by simp
    ultimately show ?thesis by (simp only: trunc_rat_def False if_False) linarith
  qed
  show ?thesis
    using rng by (simp add: round_amt_Fin r int64_of_float64_def t flip: q_def h_def)
qed

text \<open>The addition of one half can itself round: the largest float64 below \<open>0.5\<close> is
  rounded to \<open>1\<close>.\<close>

lemma round_amt_below_half:
  "round_amt oor (Fin (9007199254740991 / 18014398509481984)) = 1"
proof -
  have "rnd (18014398509481983 / 18014398509481984) = Fin 1"
    by (subst rnd_eval[where k="- 1"]) (simp_all add: rnd_simps)
  then show ?thesis
    by (simp add: round_amt_Fin int64_of_float64_def trunc_rat_def)
qed

section \<open>Construction: the error case\<close>

text \<open>
  Claim C2. \<open>NewAmount(f, tokentype)\<close> returns the InvalidAmount error exactly when
  \<open>f\<close> is NaN, +infinity or -infinity; for every other (finite) \<open>f\<close>, whatever its
  magnitude, the error is nil.
\<close>

theorem NewAmount_error_iff:
  "(snd (NewAmount oor f t) = Some InvalidAmount) = (f = NaN \<or> f = PInf \<or> f = NInf)
   \<and> (snd (NewAmount oor f t) = None) = (f \<noteq> NaN \<and> f \<noteq> PInf \<and> f \<noteq> NInf)"
  by (auto simp add: NewAmount_def IsNaN_def IsInf_def)

section \<open>Construction: units\<close>

text \<open>
  Claim C3. Constructing from \<open>1.0\<close> in the display coin unit (token type \<open>0\<close>) gives
  the amount \<open>100,000,000\<close>; constructing from \<open>1.0\<close> with a nonzero token type gives
  the amount \<open>1\<close>; and with token type \<open>0\<close> a finite input is multiplied by
  \<open>10^8\<close> before it is rounded.
\<close>

theorem NewAmount_one:
  "NewAmount oor (Fin 1) 0 = (100000000, None) \<and>
   (t \<noteq> 0 \<longrightarrow> NewAmount oor (Fin 1) t = (1, None)) \<and>
   (f \<noteq> NaN \<and> f \<noteq> PInf \<and> f \<noteq> NInf \<longrightarrow>
      NewAmount oor f 0 = (round_amt oor (fmul f (Fin (10 ^ 8))), None))"
proof -
  have "rnd 100000000 = Fin 100000000"
    by (rule rnd_exact[where m=100000000 and e=0]) (simp_all add: pow2_def)
  then have m: "fmul (Fin 1) HaoPerBitcoin = Fin 100000000"
    by (simp add: HaoPerBitcoin_def fmul_Fin)
  have a: "rnd (200000001 / 2) = Fin (200000001 / 2)"
    by (rule rnd_exact[where m=200000001 and e="- 1"]) (simp_all add: pow2_def)
  have b: "rnd (3 / 2) = Fin (3 / 2)"
    by (rule rnd_exact[where m=3 and e="- 1"]) (simp_all add: pow2_def)
  have 1: "NewAmount oor (Fin 1) 0 = (100000000, None)"
    by (simp add: NewAmount_Fin m round_amt_Fin a int64_of_float64_def trunc_simps)
  have 2: "t \<noteq> 0 \<longrightarrow> NewAmount oor (Fin 1) t = (1, None)"
    by (simp add: NewAmount_Fin round_amt_Fin b int64_of_float64_def trunc_simps)
  have 3: "f \<noteq> NaN \<and> f \<noteq> PInf \<and> f \<noteq> NInf \<longrightarrow>
      NewAmount oor f 0 = (round_amt oor (fmul f (Fin (10 ^ 8))), None)"
    by (simp add: NewAmount_def IsNaN_def IsInf_def HaoPerBitcoin_def)
  from 1 2 3 show ?thesis by blast
qed


theorem NewAmount_one_witness:
  "NewAmount oor_amd64 (Fin 1) 0 = (100000000, None) \<and>
   (5 :: 64 word) \<noteq> 0 \<and> NewAmount oor_amd64 (Fin 1) 5 = (1, None) \<and>
   Fin 2 \<noteq> NaN \<and> Fin 2 \<noteq> PInf \<and> Fin 2 \<noteq> NInf \<and>
   NewAmount oor_amd64 (Fin 2) 0 = (200000000, None)"
proof -
  have a: "rnd 200000000 = Fin 200000000"
    by (rule rnd_exact[where m=200000000 and e=0]) (simp_all add: pow2_def)
  have b: "rnd (400000001 / 2) = Fin (400000001 / 2)"
    by (rule rnd_exact[where m=400000001 and e="- 1"]) (simp_all add: pow2_def)
  have "round_amt oor_amd64 (fmul (Fin 2) (Fin (10 ^ 8))) = 200000000"
    by (simp add: fmul_Fin a round_amt_Fin b int64_of_float64_def trunc_simps)
  with NewAmount_one[of oor_amd64 5 "Fin 2"] show ?thesis by simp
qed

text \<open>
  Claim C10. The result of \<open>NewAmount\<close> depends on the token type only through whether it
  is zero: two nonzero token types give the same result, and for a finite \<open>f\<close> and a
  nonzero token type the result is \<open>round(f)\<close>, without the factor \<open>10^8\<close>.
\<close>

theorem NewAmount_tokentype:
  "t1 \<noteq> 0 \<and> t2 \<noteq> 0 \<longrightarrow>
     NewAmount oor f t1 = NewAmount oor f t2 \<and>
     (f \<noteq> NaN \<and> f \<noteq> PInf \<and> f \<noteq> NInf \<longrightarrow> NewAmount oor f t1 = (round_amt oor f, None))"
  by (simp add: NewAmount_def IsNaN_def IsInf_def)

theorem NewAmount_tokentype_witness:
  "(1 :: 64 word) \<noteq> 0 \<and> (7 :: 64 word) \<noteq> 0 \<and>
   NewAmount oor_amd64 (Fin (3 / 2)) 1 = NewAmount oor_amd64 (Fin (3 / 2)) 7 \<and>
   Fin (3 / 2) \<noteq> NaN \<and> Fin (3 / 2) \<noteq> PInf \<and> Fin (3 / 2) \<noteq> NInf \<and>
   NewAmount oor_amd64 (Fin (3 / 2)) 1 = (2, None)"
  using NewAmount_tokentype[of 1 7 oor_amd64 "Fin (3 / 2)"]
  by (auto simp add: round_amt_Fin rnd_2 int64_of_float64_def trunc_simps)

text \<open>
  Claim C8. The literal \<open>0.123456785\<close> denotes the float64 nearest to it; its product with
  \<open>10^8\<close> is exactly \<open>12345678.5\<close>, so that constructing from it in the display
  unit gives \<open>12345679\<close>, and constructing from its negation gives \<open>-12345679\<close>.
\<close>

theorem NewAmount_rounding_example:
  "rnd (123456785 / 1000000000) = Fin (8895998894757751 / 72057594037927936) \<and>
   fmul (Fin (8895998894757751 / 72057594037927936)) HaoPerBitcoin = Fin (24691357 / 2) \<and>
   NewAmount oor (Fin (8895998894757751 / 72057594037927936)) 0 = (12345679, None) \<and>
   NewAmount oor (fneg (Fin (8895998894757751 / 72057594037927936))) 0 = (- 12345679, None)"
proof -
  have lit: "rnd (123456785 / 1000000000) = Fin (8895998894757751 / 72057594037927936)"
    by (subst rnd_eval[where k="- 4"]) (simp_all add: rnd_simps)
  have p: "rnd (8895998894757751 / 72057594037927936 * 100000000) = Fin (24691357 / 2)"
    by (subst rnd_eval[where k=23]) (simp_all add: rnd_simps)
  have n: "rnd (- (8895998894757751 / 72057594037927936) * 100000000) = Fin (- (24691357 / 2))"
    by (subst rnd_eval[where k=23]) (simp_all add: rnd_simps)
  have a: "rnd 12345679 = Fin 12345679"
    by (rule rnd_exact[where m=12345679 and e=0]) (simp_all add: pow2_def)
  have b: "rnd (- 12345679) = Fin (- 12345679)"
    by (rule rnd_exact[where m=12345679 and e=0]) (simp_all add: pow2_def)
  have m: "fmul (Fin (8895998894757751 / 72057594037927936)) HaoPerBitcoin = Fin (24691357 / 2)"
    using fmul_Fin[of "8895998894757751 / 72057594037927936" 100000000]
    by (simp only: HaoPerBitcoin_def p)
  have m': "fmul (Fin (- (8895998894757751 / 72057594037927936))) HaoPerBitcoin
      = Fin (- (24691357 / 2))"
    using fmul_Fin[of "- (8895998894757751 / 72057594037927936)" 100000000]
    by (simp only: HaoPerBitcoin_def n)
  have 1: "NewAmount oor (Fin (8895998894757751 / 72057594037927936)) 0 = (12345679, None)"
    unfolding NewAmount_Fin m
    by (simp add: round_amt_Fin a int64_of_float64_def trunc_simps)
  have "fneg (Fin (8895998894757751 / 72057594037927936))
      = Fin (- (8895998894757751 / 72057594037927936))"
    by (simp add: fneg_def)
  then have 2: "NewAmount oor (fneg (Fin (8895998894757751 / 72057594037927936))) 0
      = (- 12345679, None)"
    unfolding NewAmount_Fin m'
    by (simp add: NewAmount_Fin m' round_amt_Fin b int64_of_float64_def trunc_simps)
  from lit m 1 2 show ?thesis by blast
qed


section \<open>Multiplication by a float64\<close>

text \<open>
  Claim C7. \<open>MulF64(f)\<close> is \<open>round(float64(a) * f)\<close> with the rounding rule of the
  construction: the integer truncation of the float64 product minus \<open>0.5\<close> when the
  product is negative, and of the product plus \<open>0.5\<close> otherwise. It has no error result.
  \<open>Amount(1000).MulF64(0.5)\<close> is \<open>Amount(500)\<close>, and the ties \<open>1.5\<close> and \<open>-1.5\<close> go
  away from zero: \<open>Amount(3).MulF64(0.5)\<close> is \<open>2\<close> and \<open>Amount(-3).MulF64(0.5)\<close> is
  \<open>-2\<close>.
\<close>

theorem MulF64_round:
  "MulF64 oor a f = round_amt oor (fmul (float64_of_int64 a) f) \<and>
   (flt (fmul (float64_of_int64 a) f) (Fin 0) \<longrightarrow>
      MulF64 oor a f = int64_of_float64 oor (fsub (fmul (float64_of_int64 a) f) (Fin (1 / 2)))) \<and>
   (\<not> flt (fmul (float64_of_int64 a) f) (Fin 0) \<longrightarrow>
      MulF64 oor a f = int64_of_float64 oor (fadd (fmul (float64_of_int64 a) f) (Fin (1 / 2)))) \<and>
   MulF64 oor 1000 (Fin (1 / 2)) = 500 \<and>
   MulF64 oor 3 (Fin (1 / 2)) = 2 \<and>
   MulF64 oor (- 3) (Fin (1 / 2)) = - 2"
proof -
  have a: "rnd 1000 = Fin 1000"
    by (rule rnd_exact[where m=1000 and e=0]) (simp_all add: pow2_def)
  have b: "rnd 500 = Fin 500"
    by (rule rnd_exact[where m=500 and e=0]) (simp_all add: pow2_def)
  have c: "rnd (1001 / 2) = Fin (1001 / 2)"
    by (rule rnd_exact[where m=1001 and e="- 1"]) (simp_all add: pow2_def)
  have d: "rnd (3 / 2) = Fin (3 / 2)"
    by (rule rnd_exact[where m=3 and e="- 1"]) (simp_all add: pow2_def)
  have e: "rnd (- (3 / 2)) = Fin (- (3 / 2))"
    by (rule rnd_exact[where m=3 and e="- 1"]) (simp_all add: pow2_def)
  have f: "rnd (- 2) = Fin (- 2)"
    by (rule rnd_exact[where m=2 and e=0]) (simp_all add: pow2_def)
  have "float64_of_int64 1000 = Fin 1000"
    by (simp add: float64_of_int64_def a)
  then have 1: "MulF64 oor 1000 (Fin (1 / 2)) = 500"
    by (simp add: MulF64_def fmul_Fin b round_amt_Fin c int64_of_float64_def trunc_simps)
  have "float64_of_int64 3 = Fin 3"
    by (simp add: float64_of_int64_def rnd_pos3)
  then have 2: "MulF64 oor 3 (Fin (1 / 2)) = 2"
    by (simp add: MulF64_def fmul_Fin d round_amt_Fin rnd_2 int64_of_float64_def trunc_simps)
  have "float64_of_int64 (- 3) = Fin (- 3)"
    by (simp add: float64_of_int64_def rnd_neg3)
  then have 3: "MulF64 oor (- 3) (Fin (1 / 2)) = - 2"
    by (simp add: MulF64_def fmul_Fin e round_amt_Fin f int64_of_float64_def trunc_simps)
  from 1 2 3 show ?thesis by (simp add: MulF64_def round_amt_def)
qed

theorem MulF64_round_witness:
  "\<not> flt (fmul (float64_of_int64 3) (Fin (1 / 2))) (Fin 0) \<and>
   MulF64 oor_amd64 3 (Fin (1 / 2)) = 2 \<and>
   flt (fmul (float64_of_int64 (- 3)) (Fin (1 / 2))) (Fin 0) \<and>
   MulF64 oor_amd64 (- 3) (Fin (1 / 2)) = - 2"
proof -
  have d: "rnd (3 / 2) = Fin (3 / 2)"
    by (rule rnd_exact[where m=3 and e="- 1"]) (simp_all add: pow2_def)
  have e: "rnd (- (3 / 2)) = Fin (- (3 / 2))"
    by (rule rnd_exact[where m=3 and e="- 1"]) (simp_all add: pow2_def)
  have f: "rnd (- 2) = Fin (- 2)"
    by (rule rnd_exact[where m=2 and e=0]) (simp_all add: pow2_def)
  have p: "fmul (float64_of_int64 3) (Fin (1 / 2)) = Fin (3 / 2)"
    by (simp add: float64_of_int64_def rnd_pos3 fmul_Fin d)
  have n: "fmul (float64_of_int64 (- 3)) (Fin (1 / 2)) = Fin (- (3 / 2))"
    by (simp add: float64_of_int64_def rnd_neg3 fmul_Fin e)
  show ?thesis
    using MulF64_round[of oor_amd64 3 "Fin (1 / 2)"] MulF64_round[of oor_amd64 "- 3" "Fin (1 / 2)"]
    by (simp add: p n flt_def val_def)
qed

section \<open>Unit labels\<close>

text \<open>
  Claim C6. The label function of \<open>AmountUnit\<close> is a total function without error
  result. It gives the named label for each of the six recognized exponents
  (\<open>MOMC\<close> for \<open>6\<close>, \<open>Hao\<close> for \<open>-8\<close>), and for every other exponent \<open>n\<close> the
  string \<open>1e\<close>, the decimal digits of \<open>n\<close>, a space and \<open>OMC\<close>; for the exponent
  \<open>2\<close> this is \<open>1e2 OMC\<close>.
\<close>

theorem AmountUnit_String_labels:
  "AmountUnit_String 6 = ''MOMC'' \<and> AmountUnit_String 3 = ''kOMC'' \<and>
   AmountUnit_String 0 = ''OMC'' \<and> AmountUnit_String (- 3) = ''mOMC'' \<and>
   AmountUnit_String (- 6) = [CHR 0xCE, CHR 0xBC] @ ''OMC'' \<and>
   AmountUnit_String (- 8) = ''Hao'' \<and>
   AmountUnit_String 2 = ''1e2 OMC'' \<and>
   (u \<noteq> 6 \<and> u \<noteq> 3 \<and> u \<noteq> 0 \<and> u \<noteq> - 3 \<and> u \<noteq> - 6 \<and> u \<noteq> - 8 \<longrightarrow>
      AmountUnit_String u = ''1e'' @ FormatInt10 (sint u) @ '' OMC'')"
  by (simp add: AmountUnit_String_def AmountMegaOMC_def AmountKiloOMC_def AmountOMC_def
      AmountMilliOMC_def AmountMicroOMC_def AmountHao_def FormatInt10_def digits10_small digit10_def)

theorem AmountUnit_String_labels_witness:
  "(- 5 :: 64 word) \<noteq> 6 \<and> (- 5 :: 64 word) \<noteq> 3 \<and> (- 5 :: 64 word) \<noteq> 0 \<and>
   (- 5 :: 64 word) \<noteq> - 3 \<and> (- 5 :: 64 word) \<noteq> - 6 \<and> (- 5 :: 64 word) \<noteq> - 8 \<and>
   AmountUnit_String (- 5) = ''1e-5 OMC''"
  using AmountUnit_String_labels[of "- 5"]
  by (simp add: FormatInt10_def digits10_small digit10_def)

section \<open>Conversion to a float64 in a unit\<close>

text \<open>
  Claim C4 (amended). For every amount \<open>a\<close> and unit \<open>u\<close>, \<open>ToUnit(u)\<close> is the float64
  quotient of \<open>float64(a)\<close> by \<open>math.Pow10(int(u+8))\<close>, and there is no error result for
  any exponent. When \<open>|a| \<le> 2^53\<close> and the exponent \<open>u+8\<close> is between \<open>0\<close> and \<open>22\<close>,
  both operands are exact and the result is the float64 nearest to \<open>a / 10^(u+8)\<close>. Above
  the exponent \<open>308\<close> the divisor is +infinity and the result a zero with the sign of
  \<open>a\<close>; below \<open>-323\<close> the divisor is zero and the result an infinity with the sign of
  \<open>a\<close>, or NaN for the amount zero.
\<close>

theorem ToUnit_value:
  "ToUnit a u = fdiv (float64_of_int64 a) (Pow10 (sint (u + 8))) \<and>
   (\<bar>sint a\<bar> \<le> 2 ^ 53 \<and> 0 \<le> sint (u + 8) \<and> sint (u + 8) \<le> 22 \<longrightarrow>
      ToUnit a u = rnd (of_int (sint a) / 10 ^ nat (sint (u + 8)))) \<and>
   (308 < sint (u + 8) \<longrightarrow> ToUnit a u = signed_zero (sint a < 0)) \<and>
   (sint (u + 8) < - 323 \<longrightarrow> ToUnit a u = (if a = 0 then NaN else signed_inf (sint a < 0)))"
proof -
  obtain r where r: "float64_of_int64 a = Fin r" "r < 0 \<longleftrightarrow> sint a < 0" "r = 0 \<longleftrightarrow> a = 0"
    by (rule float64_of_int64_cases)
  have 1: "ToUnit a u = rnd (of_int (sint a) / 10 ^ nat (sint (u + 8)))"
    if "\<bar>sint a\<bar> \<le> 2 ^ 53" "0 \<le> sint (u + 8)" "sint (u + 8) \<le> 22"
  proof -
    have "float64_of_int64 a = Fin (of_int (sint a))"
      unfolding float64_of_int64_def using that(1) by (rule rnd_of_int)
    then show ?thesis
      using that by (simp only: ToUnit_def Pow10_exact) (simp add: fdiv_Fin)
  qed
  have 2: "ToUnit a u = signed_zero (sint a < 0)" if "308 < sint (u + 8)"
    using that r by (simp add: ToUnit_def Pow10_def fdiv_def is_inf_def sign_neg_def)
  have 3: "ToUnit a u = (if a = 0 then NaN else signed_inf (sint a < 0))" if "sint (u + 8) < - 323"
    using that r by (simp add: ToUnit_def Pow10_def fdiv_def is_inf_def is_zero_def sign_neg_def)
  from 1 2 3 show ?thesis by (simp add: ToUnit_def)
qed

theorem ToUnit_value_witness:
  "\<bar>sint (100000000 :: 64 word)\<bar> \<le> 2 ^ 53 \<and> 0 \<le> sint (0 + 8 :: 64 word) \<and>
   sint (0 + 8 :: 64 word) \<le> 22 \<and> ToUnit 100000000 0 = Fin 1 \<and>
   308 < sint (400 + 8 :: 64 word) \<and> ToUnit (- 1) 400 = NZero \<and>
   sint (- 400 + 8 :: 64 word) < - 323 \<and> ToUnit 5 (- 400) = PInf \<and> ToUnit 0 (- 400) = NaN"
proof -
  have one: "rnd 1 = Fin 1" using rnd_pow10_exact[of 0] by simp
  show ?thesis
    using ToUnit_value[of 100000000 0, THEN conjunct2] ToUnit_value[of "- 1" 400, THEN conjunct2]
      ToUnit_value[of 5 "- 400", THEN conjunct2] ToUnit_value[of 0 "- 400", THEN conjunct2]
    by (simp add: one signed_zero_def signed_inf_def)
qed

text \<open>
  Claim C4 as stated, with the value \<open>a / 10^(u+8)\<close> for every amount and every unit,
  fails. For the amount \<open>0\<close> and the exponent \<open>-400\<close> the result is NaN, where the
  quotient is \<open>0\<close>. For the amount \<open>1\<close> and the exponent \<open>15\<close> the divisor
  \<open>math.Pow10(23)\<close> is not \<open>10^23\<close>, and for the amount \<open>2^53 + 1\<close> and the exponent
  \<open>0\<close> the dividend \<open>float64(a)\<close> is not \<open>a\<close>: in both cases the result is not the
  float64 nearest to the quotient.
\<close>

theorem ToUnit_quotient_counterexample:
  "ToUnit 0 (- 400) = NaN \<and>
   rnd (of_int (sint (0 :: 64 word)) / pow10 (sint (- 400 + 8 :: 64 word))) = Fin 0 \<and>
   ToUnit 1 15 = Fin (3402823669209385 / 340282366920938463463374607431768211456) \<and>
   rnd (of_int (sint (1 :: 64 word)) / pow10 (sint (15 + 8 :: 64 word)))
     = Fin (6805647338418769 / 680564733841876926926749214863536422912) \<and>
   ToUnit 9007199254740993 0 = Fin (3022314549036573 / 33554432) \<and>
   rnd (of_int (sint (9007199254740993 :: 64 word)) / pow10 (sint (0 + 8 :: 64 word)))
     = Fin (6044629098073147 / 67108864)"
proof -
  have z: "ToUnit 0 (- 400) = NaN"
    by (simp add: ToUnit_def Pow10_def float64_of_int64_def rnd_def fdiv_def is_inf_def is_zero_def)
  have zc: "rnd (of_int (sint (0 :: 64 word)) / pow10 (sint (- 400 + 8 :: 64 word))) = Fin 0"
    by (simp add: rnd_def)
  have p23: "rnd 100000000000000000000000 = Fin 99999999999999991611392"
    by (subst rnd_eval[where k=76]) (simp_all add: rnd_simps)
  have p23': "rnd 99999999999999991611392 = Fin 99999999999999991611392"
    by (subst rnd_eval[where k=76]) (simp_all add: rnd_simps)
  have P: "Pow10 23 = Fin 99999999999999991611392"
    by (simp add: Pow10_def pow10_def rnd_1 p23 fmul_Fin p23')
  have q: "rnd (1 / 99999999999999991611392)
      = Fin (3402823669209385 / 340282366920938463463374607431768211456)"
    by (subst rnd_eval[where k="- 77"]) (simp_all add: rnd_simps)
  have t: "ToUnit 1 15 = Fin (3402823669209385 / 340282366920938463463374607431768211456)"
    by (simp add: ToUnit_def P float64_of_int64_def rnd_1 fdiv_Fin q)
  have tc: "rnd (of_int (sint (1 :: 64 word)) / pow10 (sint (15 + 8 :: 64 word)))
     = Fin (6805647338418769 / 680564733841876926926749214863536422912)"
    by (simp add: pow10_def, subst rnd_eval[where k="- 77"]) (simp_all add: rnd_simps)
  have a: "rnd 9007199254740993 = Fin 9007199254740992"
    by (subst rnd_eval[where k=53]) (simp_all add: rnd_simps)
  have p8: "Pow10 8 = Fin 100000000" using Pow10_exact[of 8] by simp
  have d: "rnd (9007199254740992 / 100000000) = Fin (3022314549036573 / 33554432)"
    by (subst rnd_eval[where k=26]) (simp_all add: rnd_simps)
  have b: "ToUnit 9007199254740993 0 = Fin (3022314549036573 / 33554432)"
    using d by (simp add: ToUnit_def float64_of_int64_def a p8 fdiv_Fin)
  have bc: "rnd (of_int (sint (9007199254740993 :: 64 word)) / pow10 (sint (0 + 8 :: 64 word)))
     = Fin (6044629098073147 / 67108864)"
    by (simp add: pow10_def, subst rnd_eval[where k=26]) (simp_all add: rnd_simps)
  from z zc t tc b bc show ?thesis by blast
qed



section \<open>Round trip through the display unit\<close>

text \<open>Each of the three roundings of the round trip (the division by \<open>10^8\<close>, the
  multiplication by \<open>10^8\<close>, the addition of one half) has a relative error of at most
  \<open>2^-53\<close>; for an amount of at most \<open>2^50\<close> the accumulated error stays below one
  half, so that the truncation finds the amount again.\<close>

lemma roundtrip_core:
  fixes n r1 r2 r3 :: rat
  assumes n: "1 \<le> n" "n \<le> 2 ^ 50"
    and r1: "\<bar>r1 - n / 100000000\<bar> \<le> n / 100000000 / 2 ^ 53"
    and r2: "\<bar>r2 - r1 * 100000000\<bar> \<le> r1 * 100000000 / 2 ^ 53"
    and r3: "\<bar>r3 - (r2 + 1 / 2)\<bar> \<le> (r2 + 1 / 2) / 2 ^ 53"
  shows "n < r3 \<and> r3 < n + 1"
  using n abs_le_D1[OF r1] abs_le_D2[OF r1] abs_le_D1[OF r2] abs_le_D2[OF r2]
    abs_le_D1[OF r3] abs_le_D2[OF r3]
  by simp

lemma rnd_mid:
  assumes lo: "1 / 2 ^ 27 \<le> \<bar>q\<bar>" and hi: "\<bar>q\<bar> \<le> 2 ^ 63"
  obtains r where "rnd q = Fin (if q < 0 then - r else r)" "0 < r"
    "\<bar>r - \<bar>q\<bar>\<bar> \<le> \<bar>q\<bar> / 2 ^ 53"
proof -
  have "pow2 (- 1022) \<le> pow2 (- 27)" by (rule pow2_mono) simp
  also have "pow2 (- 27) = 1 / 2 ^ 27" by (simp add: pow2_def power_int_minus divide_simps)
  finally have 1: "pow2 (- 1022) \<le> \<bar>q\<bar>" using lo by simp
  have 2: "\<bar>q\<bar> \<le> pow2 1023" using hi pow2_le_1024 by simp
  from rnd_normal[OF 1 2] that show ?thesis by blast
qed

lemma ToOMC_eq: "\<bar>sint a\<bar> \<le> 2 ^ 53 \<Longrightarrow> ToOMC a = rnd (of_int (sint a) / 100000000)"
proof -
  assume a: "\<bar>sint a\<bar> \<le> 2 ^ 53"
  have "float64_of_int64 a = Fin (of_int (sint a))"
    unfolding float64_of_int64_def using a by (rule rnd_of_int)
  moreover have "Pow10 8 = Fin (10 ^ nat 8)" by (rule Pow10_exact) simp_all
  ultimately show ?thesis
    by (simp add: ToOMC_def ToUnit_def AmountOMC_def fdiv_Fin)
qed

lemma roundtrip_zero: "NewAmount oor (ToOMC 0) 0 = (0, None)"
proof -
  have h: "rnd (1 / 2) = Fin (1 / 2)"
    by (rule rnd_exact[where m=1 and e="- 1"]) (simp_all add: pow2_def)
  have f: "\<lfloor>1 / 2 :: rat\<rfloor> = 0" by (rule floor_unique) simp_all
  have "ToOMC 0 = Fin 0" using ToOMC_eq[of 0] by (simp add: rnd_def)
  then show ?thesis
    by (simp add: NewAmount_Fin fmul_def is_inf_def is_zero_def sign_neg_def signed_zero_def
        HaoPerBitcoin_def round_amt_Fin h int64_of_float64_def trunc_simps f)
qed

lemma roundtrip_nonzero:
  assumes a: "\<bar>sint a\<bar> \<le> 2 ^ 50" and nz: "a \<noteq> 0"
  shows "NewAmount oor (ToOMC a) 0 = (a, None)"
proof -
  define N where "N = sint a"
  define n :: rat where "n = of_int \<bar>N\<bar>"
  define neg where "neg = (N < 0)"
  have N0: "N \<noteq> 0" using nz by (simp add: N_def signed_eq_0_iff)
  then have "1 \<le> \<bar>N\<bar>" by simp
  then have n1: "1 \<le> n" unfolding n_def by (metis of_int_1_le_iff)
  have n2: "n \<le> 2 ^ 50" unfolding n_def using a
    by (metis N_def of_int_le_numeral_power_cancel_iff)
  have absN: "\<bar>of_int N :: rat\<bar> = n" by (simp add: n_def)
  \<comment> \<open>the division by \<open>10^8\<close>\<close>
  define q1 :: rat where "q1 = of_int N / 100000000"
  have q1a: "\<bar>q1\<bar> = n / 100000000" by (simp add: q1_def absN)
  have q1n: "q1 < 0 \<longleftrightarrow> neg" by (simp add: q1_def neg_def divide_less_0_iff)
  have "1 / 2 ^ 27 \<le> \<bar>q1\<bar>" "\<bar>q1\<bar> \<le> 2 ^ 63" using n1 n2 by (simp_all add: q1a)
  then obtain r1 where r1: "rnd q1 = Fin (if q1 < 0 then - r1 else r1)" "0 < r1"
    "\<bar>r1 - \<bar>q1\<bar>\<bar> \<le> \<bar>q1\<bar> / 2 ^ 53" by (rule rnd_mid)
  define x where "x = (if neg then - r1 else r1)"
  have "\<bar>sint a\<bar> \<le> 2 ^ 53" using a by simp
  then have omc: "ToOMC a = Fin x"
    using r1(1) by (simp add: ToOMC_eq x_def q1n flip: N_def q1_def)
  have x0: "x \<noteq> 0" using r1(2) by (simp add: x_def)
  \<comment> \<open>the multiplication by \<open>10^8\<close>\<close>
  define q2 where "q2 = x * 100000000"
  have q2a: "\<bar>q2\<bar> = r1 * 100000000" using r1(2) by (simp add: q2_def x_def abs_mult)
  have q2n: "q2 < 0 \<longleftrightarrow> neg" using r1(2) by (simp add: q2_def x_def mult_less_0_iff)
  have e1: "\<bar>r1 - n / 100000000\<bar> \<le> n / 100000000 / 2 ^ 53" using r1(3) by (simp only: q1a)
  have "1 / 2 ^ 27 \<le> \<bar>q2\<bar>" "\<bar>q2\<bar> \<le> 2 ^ 63"
    using n1 n2 abs_le_D1[OF e1] abs_le_D2[OF e1] by (simp_all add: q2a)
  then obtain r2 where r2: "rnd q2 = Fin (if q2 < 0 then - r2 else r2)" "0 < r2"
    "\<bar>r2 - \<bar>q2\<bar>\<bar> \<le> \<bar>q2\<bar> / 2 ^ 53" by (rule rnd_mid)
  define y where "y = (if neg then - r2 else r2)"
  have mul: "fmul (Fin x) HaoPerBitcoin = Fin y"
    using r2(1) x0 by (simp add: HaoPerBitcoin_def fmul_Fin y_def q2n flip: q2_def)
  have yn: "y < 0 \<longleftrightarrow> neg" using r2(2) by (auto simp add: y_def)
  have e2: "\<bar>r2 - r1 * 100000000\<bar> \<le> r1 * 100000000 / 2 ^ 53" using r2(3) by (simp only: q2a)
  \<comment> \<open>adding or subtracting one half\<close>
  define q3 where "q3 = (if y < 0 then y - 1 / 2 else y + 1 / 2)"
  have q3a: "\<bar>q3\<bar> = r2 + 1 / 2" using r2(2) by (auto simp add: q3_def y_def)
  have q3n: "q3 < 0 \<longleftrightarrow> neg" using r2(2) by (auto simp add: q3_def y_def)
  have "1 / 2 ^ 27 \<le> \<bar>q3\<bar>" "\<bar>q3\<bar> \<le> 2 ^ 63"
    using n1 n2 r2(2) abs_le_D1[OF e1] abs_le_D2[OF e1] abs_le_D1[OF e2] abs_le_D2[OF e2]
    by (simp_all add: q3a)
  then obtain r3 where r3: "rnd q3 = Fin (if q3 < 0 then - r3 else r3)" "0 < r3"
    "\<bar>r3 - \<bar>q3\<bar>\<bar> \<le> \<bar>q3\<bar> / 2 ^ 53" by (rule rnd_mid)
  have e3: "\<bar>r3 - (r2 + 1 / 2)\<bar> \<le> (r2 + 1 / 2) / 2 ^ 53" using r3(3) by (simp only: q3a)
  from roundtrip_core[OF n1 n2 e1 e2 e3] have "n < r3" "r3 < n + 1" by simp_all
  then have fl: "\<lfloor>r3\<rfloor> = \<bar>N\<bar>" unfolding n_def by (simp add: floor_unique)
  define z where "z = (if neg then - r3 else r3)"
  have tr: "trunc_rat z = N" using r3(2) fl by (auto simp add: trunc_rat_def z_def neg_def)
  have rng: "- (2 ^ 63) \<le> N" "N < 2 ^ 63" using a by (simp_all add: N_def)
  have "round_amt oor (Fin y) = int64_of_float64 oor (Fin z)"
    using r3(1) by (simp add: round_amt_Fin z_def q3n flip: q3_def)
  also have "\<dots> = word_of_int N" using rng by (simp add: int64_of_float64_def tr)
  also have "\<dots> = a" by (simp add: N_def)
  finally show ?thesis by (simp add: omc NewAmount_Fin mul)
qed

text \<open>
  Claim C9. Round trip: for every amount \<open>n\<close> of reasonable magnitude, here
  \<open>|n| \<le> 2^50\<close>, converting \<open>Amount(n)\<close> to the display coin unit with \<open>ToOMC\<close> and
  constructing from the result with \<open>NewAmount\<close> and token type \<open>0\<close> gives \<open>n\<close> again,
  without error.
\<close>

theorem ToOMC_NewAmount_roundtrip:
  "\<bar>sint a\<bar> \<le> 2 ^ 50 \<Longrightarrow> NewAmount oor (ToOMC a) 0 = (a, None)"
  by (cases "a = 0") (simp_all add: roundtrip_zero roundtrip_nonzero)

theorem ToOMC_NewAmount_roundtrip_witness:
  "\<bar>sint (2100000000000 :: 64 word)\<bar> \<le> 2 ^ 50 \<and>
   NewAmount oor_amd64 (ToOMC 2100000000000) 0 = (2100000000000, None) \<and>
   \<bar>sint (- 7 :: 64 word)\<bar> \<le> 2 ^ 50 \<and>
   NewAmount oor_amd64 (ToOMC (- 7)) 0 = (- 7, None)"
  using ToOMC_NewAmount_roundtrip[of 2100000000000 oor_amd64]
    ToOMC_NewAmount_roundtrip[of "- 7" oor_amd64]
  by simp

text \<open>The bound on the magnitude is needed: the amount \<open>2^53 + 1\<close> is not a
  float64, and the round trip gives \<open>2^53\<close>.\<close>

lemma roundtrip_boundary:
  "NewAmount oor (ToOMC 9007199254740993) 0 = (9007199254740992, None)"
proof -
  have a: "rnd 9007199254740993 = Fin 9007199254740992"
    by (subst rnd_eval[where k=53]) (simp_all add: rnd_simps)
  have p: "Pow10 8 = Fin 100000000" using Pow10_exact[of 8] by simp
  have d: "rnd (9007199254740992 / 100000000) = Fin (3022314549036573 / 33554432)"
    by (subst rnd_eval[where k=26]) (simp_all add: rnd_simps)
  have m: "rnd (3022314549036573 / 33554432 * 100000000) = Fin 9007199254740992"
    by (subst rnd_eval[where k=53]) (simp_all add: rnd_simps)
  have h: "rnd (18014398509481985 / 2) = Fin 9007199254740992"
    by (subst rnd_eval[where k=53]) (simp_all add: rnd_simps)
  have "float64_of_int64 9007199254740993 = Fin 9007199254740992"
    by (simp add: float64_of_int64_def a)
  then have omc: "ToOMC 9007199254740993 = Fin (3022314549036573 / 33554432)"
    using d by (simp add: ToOMC_def ToUnit_def AmountOMC_def p fdiv_Fin)
  have mul: "fmul (Fin (3022314549036573 / 33554432)) HaoPerBitcoin = Fin 9007199254740992"
    using fmul_Fin[of "3022314549036573 / 33554432" 100000000]
    by (simp only: HaoPerBitcoin_def m)
  show ?thesis
    unfolding omc NewAmount_Fin mul
    by (simp add: round_amt_Fin h int64_of_float64_def trunc_simps)
qed


section \<open>Formatting\<close>

lemma is_digit_not_sep: "is_digit c \<Longrightarrow> c \<noteq> CHR ''.'' \<and> c \<noteq> CHR '' ''"
  by (auto simp add: is_digit_def)

lemma digit10_is_digit: "0 \<le> d \<Longrightarrow> d < 10 \<Longrightarrow> is_digit (digit10 d)"
  unfolding is_digit_def digit10_def by (rule nth_mem) simp

lemma digits10_is_digit: "0 \<le> n \<Longrightarrow> c \<in> set (digits10 n) \<Longrightarrow> is_digit c"
proof (induction n arbitrary: c rule: digits10.induct)
  case (1 n)
  show ?case
  proof (cases "n < 10")
    case True
    with 1(2,3) show ?thesis by (simp add: digits10.simps[of n] digit10_is_digit)
  next
    case False
    then have "0 \<le> n div 10" by simp
    with False 1 show ?thesis
      by (auto simp add: digits10.simps[of n] digit10_is_digit)
  qed
qed

lemma frac10_is_digit: "c \<in> set (frac10 p n) \<Longrightarrow> is_digit c"
  by (induction p arbitrary: n) (auto simp add: digit10_is_digit)

lemma length_frac10: "length (frac10 p n) = p"
  by (induction p arbitrary: n) simp_all

lemma frac_count_fixed:
  assumes sg: "sg = [] \<or> sg = ''-''" and n: "0 \<le> n"
  shows "frac_count (sg @ fixed_digits n p @ '' '' @ lbl) = p"
proof -
  have i: "0 \<le> n div 10 ^ p" using n by (simp add: pos_imp_zdiv_nonneg_iff)
  let ?num = "sg @ digits10 (n div 10 ^ p)"
  have nosp: "\<And>c. c \<in> set ?num \<Longrightarrow> c \<noteq> CHR '' ''"
    using sg digits10_is_digit[OF i] is_digit_not_sep by auto
  have nodot: "\<And>c. c \<in> set ?num \<Longrightarrow> c \<noteq> CHR ''.''"
    using sg digits10_is_digit[OF i] is_digit_not_sep by auto
  show ?thesis
  proof (cases "0 < p")
    case True
    let ?fr = "frac10 p (n mod 10 ^ p)"
    have frsp: "\<And>c. c \<in> set ?fr \<Longrightarrow> c \<noteq> CHR '' ''"
      using frac10_is_digit is_digit_not_sep by blast
    have A: "sg @ fixed_digits n p @ '' '' @ lbl = (?num @ CHR ''.'' # ?fr) @ CHR '' '' # lbl"
      using True by (simp add: fixed_digits_def)
    have B: "takeWhile (\<lambda>c. c \<noteq> CHR '' '') ((?num @ CHR ''.'' # ?fr) @ CHR '' '' # lbl)
        = ?num @ CHR ''.'' # ?fr"
    proof -
      have "takeWhile (\<lambda>c. c \<noteq> CHR '' '') ((?num @ CHR ''.'' # ?fr) @ CHR '' '' # lbl)
          = (?num @ CHR ''.'' # ?fr) @ takeWhile (\<lambda>c. c \<noteq> CHR '' '') (CHR '' '' # lbl)"
        by (rule takeWhile_append2) (use nosp frsp in auto)
      then show ?thesis by simp
    qed
    have C: "dropWhile (\<lambda>c. c \<noteq> CHR ''.'') (?num @ CHR ''.'' # ?fr) = CHR ''.'' # ?fr"
      using nodot by (subst dropWhile_append2) auto
    show ?thesis unfolding frac_count_def A B C by (simp add: length_frac10)
  next
    case False
    have A: "sg @ fixed_digits n p @ '' '' @ lbl = ?num @ CHR '' '' # lbl"
      using False by (simp add: fixed_digits_def)
    have B: "takeWhile (\<lambda>c. c \<noteq> CHR '' '') (?num @ CHR '' '' # lbl) = ?num"
      using nosp by (subst takeWhile_append2) auto
    have C: "dropWhile (\<lambda>c. c \<noteq> CHR ''.'') ?num = []"
      using nodot by (simp only: dropWhile_eq_Nil_conv) blast
    show ?thesis unfolding frac_count_def A B C using False by simp
  qed
qed

lemma round_even_nonneg: "0 \<le> s \<Longrightarrow> 0 \<le> round_even s"
  by (auto simp add: round_even_def Let_def)

lemma Format_fixed_count:
  assumes p: "0 \<le> sint (- (u + 8))"
    and fin: "ToUnit a u \<noteq> NaN" "ToUnit a u \<noteq> PInf" "ToUnit a u \<noteq> NInf"
  shows "frac_count (Format a u) = nat (sint (- (u + 8)))"
proof -
  define x where "x = ToUnit a u"
  define pr where "pr = nat (sint (- (u + 8)))"
  define n where "n = round_even (\<bar>val x\<bar> * 10 ^ pr)"
  define sg where "sg = (if sign_neg x then ''-'' else [])"
  have n: "0 \<le> n" unfolding n_def by (rule round_even_nonneg) simp
  have sg: "sg = [] \<or> sg = ''-''" by (simp add: sg_def)
  have "Format a u = sg @ fixed_digits n pr @ '' '' @ AmountUnit_String u"
    using p fin by (simp add: Format_def FormatFloat_f_def Let_def x_def pr_def n_def sg_def)
  then show ?thesis using frac_count_fixed[OF sg n] by (simp add: pr_def)
qed

lemma shortest_dec_found:
  "dec_candidate q k nd = Some r \<Longrightarrow> 0 < fuel \<Longrightarrow> shortest_dec q k nd fuel = r"
  by (cases fuel) simp_all

lemma ToUnit_exact:
  assumes "\<bar>sint a\<bar> \<le> 2 ^ 53" "0 \<le> sint (u + 8)" "sint (u + 8) \<le> 22"
  shows "ToUnit a u = rnd (of_int (sint a) / 10 ^ nat (sint (u + 8)))"
proof -
  have "float64_of_int64 a = Fin (of_int (sint a))"
    unfolding float64_of_int64_def using assms(1) by (rule rnd_of_int)
  then show ?thesis
    using assms by (simp only: ToUnit_def Pow10_exact) (simp add: fdiv_Fin)
qed

lemma Amount_String_one: "Amount_String 100000000 = ''1 OMC''"
proof -
  have t: "ToUnit 100000000 0 = Fin 1"
    using ToUnit_exact[of 100000000 0] by (simp add: rnd_1)
  have il: "ilog 10 1 = 0" by (rule ilog10_unique) (simp_all add: pow10_def)
  have dc: "dec_candidate 1 0 1 = Some (1, 0)"
    by (simp add: dec_candidate_def pow10_def Let_def rnd_1 rnd_2)
  have sd: "shortest_dec 1 0 1 16 = (1, 0)"
    by (rule shortest_dec_found[OF dc]) simp
  have "shortest_fixed 1 = ''1''"
    unfolding shortest_fixed_def il sd by (simp add: digits10_small digit10_def)
  then show ?thesis
    by (simp add: Amount_String_def Format_def AmountOMC_def t FormatFloat_f_def sign_neg_def
        val_def AmountUnit_String_def AmountMegaOMC_def AmountKiloOMC_def)
qed

lemma Format_one_hao: "Format 1 0 = ''0.00000001 OMC''"
proof -
  let ?q = "3022314549036573 / 302231454903657293676544 :: rat"
  have r1: "rnd (1 / 100000000) = Fin ?q"
    by (subst rnd_eval[where k="- 27"]) (simp_all add: rnd_simps)
  have r2: "rnd (1 / 50000000) = Fin (3022314549036573 / 151115727451828646838272)"
    by (subst rnd_eval[where k="- 26"]) (simp_all add: rnd_simps)
  have t: "ToUnit 1 0 = Fin ?q"
    using ToUnit_exact[of 1 0] by (simp add: r1)
  have il: "ilog 10 ?q = - 8" by (rule ilog10_unique) (simp_all add: pow10_def)
  have dc: "dec_candidate ?q (- 8) 1 = Some (1, - 8)"
    by (simp add: dec_candidate_def pow10_def Let_def r1 r2 floor_rat_numeral_div)
  have sd: "shortest_dec ?q (- 8) 1 16 = (1, - 8)"
    by (rule shortest_dec_found[OF dc]) simp
  have "shortest_fixed ?q = ''0.00000001''"
    unfolding shortest_fixed_def il sd
    by (simp add: fixed_digits_def digits10_small digit10_def eval_nat_numeral)
  then show ?thesis
    by (simp add: Format_def t FormatFloat_f_def sign_neg_def
        val_def AmountUnit_String_def AmountMegaOMC_def AmountKiloOMC_def AmountOMC_def)
qed

text \<open>
  Claim C5 (amended). For every amount \<open>a\<close> and unit \<open>u\<close>, \<open>Format(u)\<close> is
  \<open>strconv.FormatFloat(ToUnit(u), 'f', -(u+8), 64)\<close> followed by a space and the label of
  the unit. When the precision \<open>-(u+8)\<close> is not negative and \<open>ToUnit(u)\<close> is finite, the
  number has exactly \<open>-(u+8)\<close> digits after the decimal point. When the precision is
  negative (as for the unit OMC), the number is written with the fewest digits that
  identify the float64. \<open>String\<close> is \<open>Format\<close> at the exponent \<open>0\<close>, and
  \<open>Amount(100000000).String()\<close> is \<open>1 OMC\<close>.
\<close>

theorem Format_fixed_point:
  "Format a u = FormatFloat_f (ToUnit a u) (sint (- (u + 8))) @ '' '' @ AmountUnit_String u \<and>
   (0 \<le> sint (- (u + 8)) \<and> ToUnit a u \<noteq> NaN \<and> ToUnit a u \<noteq> PInf \<and> ToUnit a u \<noteq> NInf \<longrightarrow>
      frac_count (Format a u) = nat (sint (- (u + 8)))) \<and>
   (sint (- (u + 8)) < 0 \<and> ToUnit a u \<noteq> NaN \<and> ToUnit a u \<noteq> PInf \<and> ToUnit a u \<noteq> NInf \<longrightarrow>
      Format a u = (if sign_neg (ToUnit a u) then ''-'' else []) @
        shortest_fixed \<bar>val (ToUnit a u)\<bar> @ '' '' @ AmountUnit_String u) \<and>
   Amount_String a = Format a 0 \<and>
   Amount_String 100000000 = ''1 OMC''"
proof -
  have 1: "Format a u = FormatFloat_f (ToUnit a u) (sint (- (u + 8))) @ '' '' @ AmountUnit_String u"
    by (simp add: Format_def)
  have 2: "sint (- (u + 8)) < 0 \<and> ToUnit a u \<noteq> NaN \<and> ToUnit a u \<noteq> PInf \<and> ToUnit a u \<noteq> NInf \<longrightarrow>
      Format a u = (if sign_neg (ToUnit a u) then ''-'' else []) @
        shortest_fixed \<bar>val (ToUnit a u)\<bar> @ '' '' @ AmountUnit_String u"
    by (simp add: Format_def FormatFloat_f_def)
  have 3: "Amount_String a = Format a 0"
    by (simp add: Amount_String_def AmountOMC_def)
  from 1 2 3 Format_fixed_count[of u a] Amount_String_one show ?thesis by blast
qed

theorem Format_fixed_point_witness:
  "0 \<le> sint (- (- 10 + 8) :: 64 word) \<and> ToUnit 5 (- 10) \<noteq> NaN \<and> ToUnit 5 (- 10) \<noteq> PInf \<and>
   ToUnit 5 (- 10) \<noteq> NInf \<and> frac_count (Format 5 (- 10)) = 2 \<and>
   Format 5 (- 10) = ''500.00 1e-10 OMC'' \<and>
   sint (- (0 + 8) :: 64 word) < 0 \<and> ToUnit 100000000 0 \<noteq> NaN \<and> ToUnit 100000000 0 \<noteq> PInf \<and>
   ToUnit 100000000 0 \<noteq> NInf \<and> Format 100000000 0 = ''1 OMC''"
proof -
  let ?c = "5764607523034235 / 576460752303423488 :: rat"
  have c: "rnd (1 / 100) = Fin ?c"
    by (subst rnd_eval[where k="- 7"]) (simp_all add: rnd_simps)
  have h: "rnd 100 = Fin 100" using rnd_pow10_exact[of 2] by simp
  have p: "Pow10 (- 2) = Fin ?c"
    by (simp add: Pow10_def pow10_def rnd_1 h fdiv_Fin c)
  have f: "rnd 5 = Fin 5" using rnd_of_int[of 5] by simp
  have d: "rnd (576460752303423488 / 1152921504606847) = Fin 500"
    by (subst rnd_eval[where k=8]) (simp_all add: rnd_simps)
  have t: "ToUnit 5 (- 10) = Fin 500"
    by (simp only: ToUnit_def float64_of_int64_def) (simp add: f p fdiv_Fin d)
  have t1: "ToUnit 100000000 0 = Fin 1"
    using ToUnit_exact[of 100000000 0] by (simp add: rnd_1)
  have l: "AmountUnit_String (- 10) = ''1e-10 OMC''"
    by (simp add: AmountUnit_String_def AmountMegaOMC_def AmountKiloOMC_def AmountOMC_def
        AmountMilliOMC_def AmountMicroOMC_def AmountHao_def FormatInt10_def
        digits10.simps[of 10] digits10_small digit10_def)
  have n: "FormatFloat_f (Fin 500) 2 = ''500.00''"
    by (simp add: FormatFloat_f_def sign_neg_def val_def round_even_def fixed_digits_def
        digits10.simps[of 500] digits10.simps[of 50] digits10_small digit10_def
        eval_nat_numeral)
  have s: "Format 5 (- 10) = ''500.00 1e-10 OMC''"
    by (simp add: Format_def t l n)
  show ?thesis
    using Format_fixed_point[of 5 "- 10", THEN conjunct2] Format_fixed_point[of 100000000 0]
    by (simp add: t t1 s)
qed


text \<open>
  Claim C5 as stated, with exactly \<open>-(u+8)\<close> digits after the decimal point for every
  unit, fails for the amount \<open>1\<close> and the unit OMC (exponent \<open>0\<close>): the string is
  \<open>0.00000001 OMC\<close>, with eight digits after the point, and \<open>-(0+8)\<close> is \<open>-8\<close>.
\<close>

theorem Format_digits_counterexample:
  "Format 1 0 = ''0.00000001 OMC'' \<and>
   int (frac_count (Format 1 0)) \<noteq> - sint (0 + 8 :: 64 word)"
  by (simp add: Format_one_hao frac_count_def)

end
